theory Spec2Isabelle
  imports Main
begin

section \<open>SenseGuard layer 2: the semantic analyzer\<close>

text \<open>
  A shallow embedding of \<^verbatim>\<open>senseguard/scripts/semantic_analyzer.py\<close>: the prompt
  builder \<^verbatim>\<open>build_analysis_prompt\<close>, the response recoverer
  \<^verbatim>\<open>parse_llm_response\<close> and the constant \<^verbatim>\<open>get_default_result\<close>,
  together with the parts of the Python standard library they call
  (\<^verbatim>\<open>json.loads\<close>, \<^verbatim>\<open>str.strip\<close>, \<^verbatim>\<open>str.split\<close>,
  \<^verbatim>\<open>str.join\<close>, \<^verbatim>\<open>str.find\<close>, \<^verbatim>\<open>re.sub\<close>,
  \<^verbatim>\<open>str.replace\<close>, \<^verbatim>\<open>str.format\<close>).
\<close>

subsection \<open>Python strings, values and exceptions\<close>

text \<open>
  A Python \<^verbatim>\<open>str\<close> is a sequence of Unicode code points, so a string is a list of
  natural numbers and \<open>length\<close> counts what \<^verbatim>\<open>len\<close> counts. \<open>ustr\<close>
  turns an ASCII literal into such a string.
\<close>

type_synonym pystr = "nat list"

definition ustr :: "string \<Rightarrow> pystr" where
  "ustr s = map of_char s"

datatype py_error = JSONDecodeError | IndexError | KeyError | ValueError | RecursionError

datatype json =
    JNull
  | JBool bool
  | JInt int
  | JFloat pystr
  | JString pystr
  | JArray "json list"
  | JObject "(pystr \<times> json) list"

definition json_ws :: "nat \<Rightarrow> bool" where
  "json_ws c = (c = 32 \<or> c = 9 \<or> c = 10 \<or> c = 13)"

definition skip_ws :: "pystr \<Rightarrow> pystr" where
  "skip_ws s = dropWhile json_ws s"

fun dict_set :: "(pystr \<times> json) list \<Rightarrow> pystr \<Rightarrow> json \<Rightarrow> (pystr \<times> json) list" where
  "dict_set [] k v = [(k, v)]"
| "dict_set ((k', v') # d) k v = (if k' = k then (k, v) # d else (k', v') # dict_set d k v)"

definition py_dict :: "(pystr \<times> json) list \<Rightarrow> (pystr \<times> json) list" where
  "py_dict pairs = foldl (\<lambda>d (k, v). dict_set d k v) [] pairs"

definition hexval :: "nat \<Rightarrow> nat option" where
  "hexval c =
     (if 48 \<le> c \<and> c \<le> 57 then Some (c - 48)
      else if 97 \<le> c \<and> c \<le> 102 then Some (c - 87)
      else if 65 \<le> c \<and> c \<le> 70 then Some (c - 55)
      else None)"

fun decode_uXXXX :: "pystr \<Rightarrow> nat option" where
  "decode_uXXXX (a # b # c # d # s) =
     (case (hexval a, hexval b, hexval c, hexval d) of
        (Some x, Some y, Some z, Some w) \<Rightarrow> Some (((x * 16 + y) * 16 + z) * 16 + w)
      | _ \<Rightarrow> None)"
| "decode_uXXXX _ = None"

definition BACKSLASH :: "nat \<Rightarrow> nat option" where
  "BACKSLASH esc =
     (if esc = 34 then Some 34 else if esc = 92 then Some 92 else if esc = 47 then Some 47
      else if esc = 98 then Some 8 else if esc = 102 then Some 12 else if esc = 110 then Some 10
      else if esc = 114 then Some 13 else if esc = 116 then Some 9 else None)"

definition append_char :: "nat \<Rightarrow> py_error + (pystr \<times> pystr) \<Rightarrow> py_error + (pystr \<times> pystr)" where
  "append_char ch r = (case r of Inl e \<Rightarrow> Inl e | Inr (str, rest) \<Rightarrow> Inr (ch # str, rest))"

fun scanstring :: "pystr \<Rightarrow> py_error + (pystr \<times> pystr)" where
  "scanstring [] = Inl JSONDecodeError"
| "scanstring (c # s) =
     (if c = 34 then Inr ([], s)
      else if c = 92 then
        (case s of
           [] \<Rightarrow> Inl JSONDecodeError
         | esc # s1 \<Rightarrow>
             if esc \<noteq> 117 then
               (case BACKSLASH esc of
                  None \<Rightarrow> Inl JSONDecodeError
                | Some ch \<Rightarrow> append_char ch (scanstring s1))
             else
               (case decode_uXXXX s1 of
                  None \<Rightarrow> Inl JSONDecodeError
                | Some uni \<Rightarrow>
                    if 0xd800 \<le> uni \<and> uni \<le> 0xdbff \<and> take 2 (drop 4 s1) = [92, 117] then
                      (case decode_uXXXX (drop 6 s1) of
                         None \<Rightarrow> Inl JSONDecodeError
                       | Some uni2 \<Rightarrow>
                           if 0xdc00 \<le> uni2 \<and> uni2 \<le> 0xdfff then
                             append_char (0x10000 + ((uni - 0xd800) * 1024 + (uni2 - 0xdc00)))
                               (scanstring (drop 10 s1))
                           else append_char uni (scanstring (drop 4 s1)))
                    else append_char uni (scanstring (drop 4 s1))))
      else if c \<le> 31 then Inl JSONDecodeError
      else append_char c (scanstring s))"

lemma scanstring_shorter: "scanstring s = Inr (k, r) \<Longrightarrow> length r < length s"
proof (induction s arbitrary: k r rule: scanstring.induct)
  case 1
  then show ?case by simp
next
  case (2 c s)
  show ?case
    using "2.prems" "2.IH"
    by (fastforce split: if_splits list.splits option.splits sum.splits prod.splits simp: append_char_def)
qed

definition is_digit :: "nat \<Rightarrow> bool" where
  "is_digit c = (48 \<le> c \<and> c \<le> 57)"

definition int_of_digits :: "pystr \<Rightarrow> int" where
  "int_of_digits ds = foldl (\<lambda>n c. 10 * n + (int c - 48)) 0 ds"

definition match_integer :: "pystr \<Rightarrow> (pystr \<times> pystr) option" where
  "match_integer s =
     (let sign = (if take 1 s = [45] then [45] else []);
          s1 = drop (length sign) s
      in case s1 of
           [] \<Rightarrow> None
         | d # s2 \<Rightarrow>
             if d = 48 then Some (sign @ [48], s2)
             else if is_digit d then Some (sign @ takeWhile is_digit s1, dropWhile is_digit s1)
             else None)"

definition match_frac :: "pystr \<Rightarrow> pystr \<times> pystr" where
  "match_frac s =
     (case s of
        c # d # s2 \<Rightarrow>
          if c = 46 \<and> is_digit d then (c # takeWhile is_digit (d # s2), dropWhile is_digit (d # s2))
          else ([], s)
      | _ \<Rightarrow> ([], s))"

definition match_exp :: "pystr \<Rightarrow> pystr \<times> pystr" where
  "match_exp s =
     (case s of
        [] \<Rightarrow> ([], s)
      | e # s1 \<Rightarrow>
          if e = 101 \<or> e = 69 then
            (let sign = (if take 1 s1 = [45] \<or> take 1 s1 = [43] then take 1 s1 else []);
                 s2 = drop (length sign) s1
             in if s2 \<noteq> [] \<and> is_digit (hd s2)
                then (e # sign @ takeWhile is_digit s2, dropWhile is_digit s2)
                else ([], s))
          else ([], s))"

text \<open>
  Two limits of the interpreter reach the caller of \<^verbatim>\<open>json.loads\<close> as exceptions
  that are not \<open>JSONDecodeError\<close>. Converting an integer literal of more than
  \<^verbatim>\<open>sys.int_info.default_max_str_digits\<close> digits raises \<open>ValueError\<close>, and the
  scanner enters a recursive call for each nested array or object, which raises
  \<open>RecursionError\<close> beyond \<^verbatim>\<open>sys.getrecursionlimit()\<close>. The depth counted here
  is the nesting inside the document; frames already on the stack only lower the depth
  left to the decoder.
\<close>

definition int_max_str_digits :: nat where
  "int_max_str_digits = 4300"

definition recursion_limit :: nat where
  "recursion_limit = 1000"

definition parse_int :: "pystr \<Rightarrow> py_error + json" where
  "parse_int integer =
     (if take 1 integer = [45] then
        (if int_max_str_digits < length (drop 1 integer) then Inl ValueError
         else Inr (JInt (- int_of_digits (drop 1 integer))))
      else
        (if int_max_str_digits < length integer then Inl ValueError
         else Inr (JInt (int_of_digits integer))))"

definition match_number :: "pystr \<Rightarrow> ((py_error + json) \<times> pystr) option" where
  "match_number s =
     (case match_integer s of
        None \<Rightarrow> None
      | Some (integer, s1) \<Rightarrow>
          (let (frac, s2) = match_frac s1;
               (exp, s3) = match_exp s2
           in if frac \<noteq> [] \<or> exp \<noteq> []
              then Some (Inr (JFloat (integer @ frac @ exp)), s3)
              else Some (parse_int integer, s3)))"

lemma length_dropWhile_less_Suc: "length (dropWhile P xs) < Suc (length xs + n)"
  using length_dropWhile_le [of P xs] by simp

lemma length_dropWhile_le_add: "length (dropWhile P xs) \<le> length xs + n"
  using length_dropWhile_le [of P xs] by simp

lemma match_integer_shorter: "match_integer s = Some (i, r) \<Longrightarrow> length r < length s"
  unfolding match_integer_def
  using length_dropWhile_less_Suc [of is_digit _ 0] length_dropWhile_less_Suc [of is_digit _ 1]
  by (cases s) (auto split: list.splits if_splits simp: Let_def)

lemma match_frac_shorter: "match_frac s = (f, r) \<Longrightarrow> length r \<le> length s"
  unfolding match_frac_def
  using length_dropWhile_le_add [of is_digit _ 1] length_dropWhile_le_add [of is_digit _ 2]
  by (auto split: list.splits if_splits)

lemma match_exp_shorter: "match_exp s = (e, r) \<Longrightarrow> length r \<le> length s"
  unfolding match_exp_def
  using length_dropWhile_le_add [of is_digit _ 1] length_dropWhile_le_add [of is_digit _ 2]
  by (cases s; cases "tl s") (auto split: if_splits simp: Let_def)

lemma match_number_shorter: "match_number s = Some (v, r) \<Longrightarrow> length r < length s"
proof -
  assume a: "match_number s = Some (v, r)"
  then obtain i s1 where i: "match_integer s = Some (i, s1)"
    unfolding match_number_def by (auto split: option.splits)
  obtain f s2 where f: "match_frac s1 = (f, s2)" by (cases "match_frac s1")
  obtain e s3 where e: "match_exp s2 = (e, s3)" by (cases "match_exp s2")
  from a i f e have "r = s3"
    unfolding match_number_def by (auto split: if_splits)
  with match_integer_shorter [OF i] match_frac_shorter [OF f] match_exp_shorter [OF e]
  show ?thesis by simp
qed

function scan_once :: "nat \<Rightarrow> pystr \<Rightarrow> py_error + (json \<times> pystr)"
  and JSONObject :: "nat \<Rightarrow> (pystr \<times> json) list \<Rightarrow> pystr \<Rightarrow> py_error + (json \<times> pystr)"
  and JSONArray :: "nat \<Rightarrow> json list \<Rightarrow> pystr \<Rightarrow> py_error + (json \<times> pystr)"
where
  "scan_once depth [] = Inl JSONDecodeError"
| "scan_once depth (c # r) =
     (if c = 34 then
        (case scanstring r of Inl e \<Rightarrow> Inl e | Inr (str, rest) \<Rightarrow> Inr (JString str, rest))
      else if c = 123 then
        (if recursion_limit \<le> depth then Inl RecursionError
         else
           (case skip_ws r of
              [] \<Rightarrow> Inl JSONDecodeError
            | d # r1 \<Rightarrow>
                if d = 125 then Inr (JObject [], r1)
                else if d = 34 then JSONObject (Suc depth) [] r1
                else Inl JSONDecodeError))
      else if c = 91 then
        (if recursion_limit \<le> depth then Inl RecursionError
         else if take 1 (skip_ws r) = [93] then Inr (JArray [], drop 1 (skip_ws r))
         else JSONArray (Suc depth) [] (skip_ws r))
      else if c = 110 \<and> take 4 (c # r) = ustr ''null'' then Inr (JNull, drop 4 (c # r))
      else if c = 116 \<and> take 4 (c # r) = ustr ''true'' then Inr (JBool True, drop 4 (c # r))
      else if c = 102 \<and> take 5 (c # r) = ustr ''false'' then Inr (JBool False, drop 5 (c # r))
      else
        (case match_number (c # r) of
           Some (res, rest) \<Rightarrow> (case res of Inl e \<Rightarrow> Inl e | Inr v \<Rightarrow> Inr (v, rest))
         | None \<Rightarrow>
             if c = 78 \<and> take 3 (c # r) = ustr ''NaN''
               then Inr (JFloat (ustr ''NaN''), drop 3 (c # r))
             else if c = 73 \<and> take 8 (c # r) = ustr ''Infinity''
               then Inr (JFloat (ustr ''Infinity''), drop 8 (c # r))
             else if c = 45 \<and> take 9 (c # r) = ustr ''-Infinity''
               then Inr (JFloat (ustr ''-Infinity''), drop 9 (c # r))
             else Inl JSONDecodeError))"
| "JSONObject depth pairs s =
     (case scanstring s of
        Inl e \<Rightarrow> Inl e
      | Inr (key, s1) \<Rightarrow>
          (case skip_ws s1 of
             [] \<Rightarrow> Inl JSONDecodeError
           | c # s2 \<Rightarrow>
               if c \<noteq> 58 then Inl JSONDecodeError
               else
                 (case scan_once depth (skip_ws s2) of
                    Inl e \<Rightarrow> Inl e
                  | Inr (val, s3) \<Rightarrow>
                      (case skip_ws s3 of
                         [] \<Rightarrow> Inl JSONDecodeError
                       | d # s4 \<Rightarrow>
                           if d = 125 then Inr (JObject (py_dict (pairs @ [(key, val)])), s4)
                           else if d \<noteq> 44 then Inl JSONDecodeError
                           else
                             (case skip_ws s4 of
                                [] \<Rightarrow> Inl JSONDecodeError
                              | q # s5 \<Rightarrow>
                                  if q \<noteq> 34 then Inl JSONDecodeError
                                  else JSONObject depth (pairs @ [(key, val)]) s5)))))"
| "JSONArray depth vals s =
     (case scan_once depth s of
        Inl e \<Rightarrow> Inl e
      | Inr (val, s1) \<Rightarrow>
          (case skip_ws s1 of
             [] \<Rightarrow> Inl JSONDecodeError
           | d # s2 \<Rightarrow>
               if d = 93 then Inr (JArray (vals @ [val]), s2)
               else if d \<noteq> 44 then Inl JSONDecodeError
               else JSONArray depth (vals @ [val]) (skip_ws s2)))"
  by pat_completeness auto

lemma length_skip_ws: "length (skip_ws s) \<le> length s"
  by (simp add: skip_ws_def length_dropWhile_le)

lemma skip_ws_Cons_shorter: "skip_ws s = c # r \<Longrightarrow> length r < length s"
  using length_skip_ws [of s] by simp

lemma scan_shorter_partial:
  "scan_once_JSONObject_JSONArray_dom (Inl (depth, s)) \<Longrightarrow>
     (\<forall>v r. scan_once depth s = Inr (v, r) \<longrightarrow> length r < length s)"
  "scan_once_JSONObject_JSONArray_dom (Inr (Inl (depth, pairs, s))) \<Longrightarrow>
     (\<forall>v r. JSONObject depth pairs s = Inr (v, r) \<longrightarrow> length r < length s)"
  "scan_once_JSONObject_JSONArray_dom (Inr (Inr (depth, vals, s))) \<Longrightarrow>
     (\<forall>v r. JSONArray depth vals s = Inr (v, r) \<longrightarrow> length r < length s)"
proof (induction rule: scan_once_JSONObject_JSONArray.pinduct)
  case (1 depth)
  then show ?case by (simp add: scan_once.psimps)
next
  case (2 depth c r)
  note eq = scan_once.psimps(2) [OF "2.hyps"]
  show ?case
  proof (intro allI impI)
    fix v r'
    assume a: "scan_once depth (c # r) = Inr (v, r')"
    consider (str) "c = 34" | (obj) "c = 123" | (arr) "c = 91"
      | (other) "c \<noteq> 34" "c \<noteq> 123" "c \<noteq> 91" by blast
    then show "length r' < length (c # r)"
    proof cases
      case str
      with a eq obtain k where "scanstring r = Inr (k, r')"
        by (auto split: sum.splits)
      from scanstring_shorter [OF this] show ?thesis by simp
    next
      case obj
      with a eq have lim: "\<not> recursion_limit \<le> depth"
        by (auto split: if_splits)
      with obj a eq obtain d r1 where d: "skip_ws r = d # r1"
        by (auto split: list.splits)
      from skip_ws_Cons_shorter [OF d] have l: "length r1 < length r" .
      show ?thesis
      proof (cases "d = 125")
        case True
        with a eq obj d lim have "r' = r1" by simp
        with l show ?thesis by simp
      next
        case False
        with a eq obj d lim have d34: "d = 34" and j: "JSONObject (Suc depth) [] r1 = Inr (v, r')"
          by (auto split: if_splits)
        from "2.IH"(1) [of d r1] obj d False d34 j lim have "length r' < length r1" by simp
        with l show ?thesis by simp
      qed
    next
      case arr
      with a eq have lim: "\<not> recursion_limit \<le> depth"
        by (auto split: if_splits)
      show ?thesis
      proof (cases "take 1 (skip_ws r) = [93]")
        case True
        with a eq arr lim have "r' = drop 1 (skip_ws r)" by simp
        with length_skip_ws [of r] show ?thesis by simp
      next
        case False
        with a eq arr lim have j: "JSONArray (Suc depth) [] (skip_ws r) = Inr (v, r')" by simp
        from "2.IH"(2) arr False j lim have "length r' < length (skip_ws r)" by simp
        with length_skip_ws [of r] show ?thesis by simp
      qed
    next
      case other
      show ?thesis
      proof (cases "match_number (c # r)")
        case (Some p)
        with a eq other
        have "(\<exists>n. r' = drop n r) \<or> (\<exists>res. match_number (c # r) = Some (res, r'))"
          by (auto split: if_splits prod.splits sum.splits)
        then show ?thesis using match_number_shorter [of "c # r" _ r'] by auto
      next
        case None
        with a eq other have "\<exists>n. r' = drop n r"
          by (auto split: if_splits)
        then show ?thesis by auto
      qed
    qed
  qed
next
  case (3 depth pairs s)
  note eq = JSONObject.psimps [OF "3.hyps"]
  show ?case
  proof (intro allI impI)
    fix v r'
    assume a: "JSONObject depth pairs s = Inr (v, r')"
    from a eq obtain key s1 where k: "scanstring s = Inr (key, s1)"
      by (auto split: sum.splits)
    from a eq k obtain c s2 where c: "skip_ws s1 = c # s2" and c58: "c = 58"
      by (auto split: list.splits if_splits)
    from a eq k c c58 obtain val s3 where sc: "scan_once depth (skip_ws s2) = Inr (val, s3)"
      by (auto split: sum.splits)
    from a eq k c c58 sc obtain d s4 where d: "skip_ws s3 = d # s4"
      by (auto split: list.splits)
    have l1: "length s1 < length s" by (rule scanstring_shorter [OF k])
    have l2: "length s2 < length s1" by (rule skip_ws_Cons_shorter [OF c])
    from "3.IH"(1) [OF k refl c] c58 sc have l3: "length s3 < length (skip_ws s2)" by simp
    have l4: "length s4 < length s3" by (rule skip_ws_Cons_shorter [OF d])
    from l1 l2 l3 l4 length_skip_ws [of s2] have l: "length s4 < length s" by simp
    show "length r' < length s"
    proof (cases "d = 125")
      case True
      with a eq k c c58 sc d have "r' = s4" by simp
      with l show ?thesis by simp
    next
      case False
      with a eq k c c58 sc d obtain q s5 where q: "skip_ws s4 = q # s5" and q34: "q = 34"
        and d44: "d = 44" and j: "JSONObject depth (pairs @ [(key, val)]) s5 = Inr (v, r')"
        by (auto split: list.splits if_splits)
      from "3.IH"(2) [OF k refl c _ sc refl d False _ q] c58 d44 q34 j
      have "length r' < length s5" by simp
      with skip_ws_Cons_shorter [OF q] l show ?thesis by simp
    qed
  qed
next
  case (4 depth vals s)
  note eq = JSONArray.psimps [OF "4.hyps"]
  show ?case
  proof (intro allI impI)
    fix v r'
    assume a: "JSONArray depth vals s = Inr (v, r')"
    from a eq obtain val s1 where sc: "scan_once depth s = Inr (val, s1)"
      by (auto split: sum.splits)
    from a eq sc obtain d s2 where d: "skip_ws s1 = d # s2"
      by (auto split: list.splits)
    from "4.IH"(1) sc have l1: "length s1 < length s" by simp
    have l2: "length s2 < length s1" by (rule skip_ws_Cons_shorter [OF d])
    show "length r' < length s"
    proof (cases "d = 93")
      case True
      with a eq sc d have "r' = s2" by simp
      with l1 l2 show ?thesis by simp
    next
      case False
      with a eq sc d have d44: "d = 44"
        and j: "JSONArray depth (vals @ [val]) (skip_ws s2) = Inr (v, r')"
        by (auto split: if_splits)
      from "4.IH"(2) [OF sc refl d False] d44 j have "length r' < length (skip_ws s2)" by simp
      with length_skip_ws [of s2] l1 l2 show ?thesis by simp
    qed
  qed
qed

lemma scan_total: "All scan_once_JSONObject_JSONArray_dom"
  apply (relation "measure (\<lambda>x. case x of
          Inl (depth, s) \<Rightarrow> 2 * length s
        | Inr (Inl (depth, pairs, s)) \<Rightarrow> 2 * length s + 1
        | Inr (Inr (depth, vals, s)) \<Rightarrow> 2 * length s + 1)")
  apply simp_all
  subgoal for depth c r d r1
    using skip_ws_Cons_shorter [of r 34 r1] by simp
  subgoal for depth c r
    using length_skip_ws [of r] by simp
  subgoal for s b key s1 c s2
    using scanstring_shorter [of s key s1] skip_ws_Cons_shorter [of s1 58 s2] length_skip_ws [of s2]
    by auto
  subgoal for depth s b key s1 c s2 ba val s3 d s4 q s5
    using scanstring_shorter [of s key s1] skip_ws_Cons_shorter [of s1 58 s2] length_skip_ws [of s2]
      scan_shorter_partial(1) [of depth "skip_ws s2"] skip_ws_Cons_shorter [of s3 44 s4]
      skip_ws_Cons_shorter [of s4 34 s5]
    by auto
  subgoal for depth s b val s1 d s2
    using scan_shorter_partial(1) [of depth s] skip_ws_Cons_shorter [of s1 44 s2]
      length_skip_ws [of s2]
    by auto
  done

termination scan_once
  by (rule scan_total)

lemma scan_once_shorter: "scan_once depth s = Inr (v, r) \<Longrightarrow> length r < length s"
  using scan_shorter_partial(1) [of depth s] scan_total by auto

definition json_loads :: "pystr \<Rightarrow> py_error + json" where
  "json_loads s =
     (case scan_once 0 (skip_ws s) of
        Inl e \<Rightarrow> Inl e
      | Inr (obj, rest) \<Rightarrow> if skip_ws rest = [] then Inr obj else Inl JSONDecodeError)"

declare scan_once.simps [simp del] JSONObject.simps [simp del] JSONArray.simps [simp del]

lemmas json_eval = json_loads_def scan_once.simps JSONObject.simps JSONArray.simps
  skip_ws_def json_ws_def ustr_def py_dict_def append_char_def BACKSLASH_def hexval_def
  match_number_def match_integer_def match_frac_def match_exp_def is_digit_def int_of_digits_def
  parse_int_def int_max_str_digits_def recursion_limit_def

subsection \<open>The string methods the analyzer calls\<close>

definition py_isspace :: "nat \<Rightarrow> bool" where
  "py_isspace c =
     ((9 \<le> c \<and> c \<le> 13) \<or> (28 \<le> c \<and> c \<le> 32) \<or> c = 133 \<or> c = 160 \<or> c = 5760
      \<or> (8192 \<le> c \<and> c \<le> 8202) \<or> c = 8232 \<or> c = 8233 \<or> c = 8239 \<or> c = 8287
      \<or> c = 12288)"

definition py_strip :: "pystr \<Rightarrow> pystr" where
  "py_strip s = rev (dropWhile py_isspace (rev (dropWhile py_isspace s)))"

definition py_startswith :: "pystr \<Rightarrow> pystr \<Rightarrow> bool" where
  "py_startswith s prefix = (take (length prefix) s = prefix)"

function py_split :: "pystr \<Rightarrow> nat \<Rightarrow> pystr list" where
  "py_split s sep =
     (case dropWhile (\<lambda>c. c \<noteq> sep) s of
        [] \<Rightarrow> [s]
      | c # rest \<Rightarrow> takeWhile (\<lambda>c. c \<noteq> sep) s # py_split rest sep)"
  by pat_completeness auto
termination
proof (relation "measure (\<lambda>(s, sep). length s)", goal_cases)
  case 1
  show ?case by simp
next
  case (2 s sep c rest)
  from length_dropWhile_le [of "\<lambda>c. c \<noteq> sep" s] 2 show ?case by simp
qed

declare py_split.simps [simp del]

fun py_join :: "pystr \<Rightarrow> pystr list \<Rightarrow> pystr" where
  "py_join sep [] = []"
| "py_join sep [x] = x"
| "py_join sep (x # y # ys) = x @ sep @ py_join sep (y # ys)"

definition py_index :: "'a list \<Rightarrow> int \<Rightarrow> py_error + 'a" where
  "py_index xs i =
     (if 0 \<le> i \<and> i < int (length xs) then Inr (xs ! nat i)
      else if i < 0 \<and> - int (length xs) \<le> i then Inr (xs ! nat (int (length xs) + i))
      else Inl IndexError)"

definition slice_bound :: "nat \<Rightarrow> int \<Rightarrow> nat" where
  "slice_bound n i = (if i < 0 then nat (int n + i) else min (nat i) n)"

definition py_slice :: "'a list \<Rightarrow> int \<Rightarrow> int \<Rightarrow> 'a list" where
  "py_slice xs i j =
     (let a = slice_bound (length xs) i; b = slice_bound (length xs) j
      in take (b - a) (drop a xs))"

fun find_from :: "int \<Rightarrow> pystr \<Rightarrow> nat \<Rightarrow> int" where
  "find_from i [] c = - 1"
| "find_from i (x # xs) c = (if x = c then i else find_from (i + 1) xs c)"

definition py_find :: "pystr \<Rightarrow> nat \<Rightarrow> int" where
  "py_find s c = find_from 0 s c"

fun rfind_from :: "int \<Rightarrow> int \<Rightarrow> pystr \<Rightarrow> nat \<Rightarrow> int" where
  "rfind_from i found [] c = found"
| "rfind_from i found (x # xs) c = rfind_from (i + 1) (if x = c then i else found) xs c"

definition py_rfind :: "pystr \<Rightarrow> nat \<Rightarrow> int" where
  "py_rfind s c = rfind_from 0 (- 1) s c"

function re_sub_trailing_commas :: "pystr \<Rightarrow> pystr" where
  "re_sub_trailing_commas [] = []"
| "re_sub_trailing_commas (c # s) =
     (if c = 44 then
        (case dropWhile py_isspace s of
           [] \<Rightarrow> c # re_sub_trailing_commas s
         | d # rest \<Rightarrow>
             if d = 125 \<or> d = 93 then d # re_sub_trailing_commas rest
             else c # re_sub_trailing_commas s)
      else c # re_sub_trailing_commas s)"
  by pat_completeness auto
termination
proof (relation "measure length", goal_cases)
  case (3 c s d rest)
  from length_dropWhile_le [of py_isspace s] 3 show ?case by simp
qed simp_all

function py_replace :: "pystr \<Rightarrow> pystr \<Rightarrow> pystr \<Rightarrow> pystr" where
  "py_replace [] old new = (if old = [] then new else [])"
| "py_replace (c # s) old new =
     (if old = [] then new @ c # py_replace s old new
      else if py_startswith (c # s) old then new @ py_replace (drop (length old) (c # s)) old new
      else c # py_replace s old new)"
  by pat_completeness auto
termination
  by (relation "measure (\<lambda>(s, old, new). length s)") (auto simp: py_startswith_def)

subsection \<open>The response recoverer\<close>

definition FENCE :: pystr where
  "FENCE = [96, 96, 96]"

definition remove_code_block :: "pystr \<Rightarrow> py_error + pystr" where
  "remove_code_block text =
     (if py_startswith text FENCE then
        (let lines = py_split text 10 in
         case py_index lines 0 of
           Inl e \<Rightarrow> Inl e
         | Inr first_line \<Rightarrow>
             (let start_idx = (if py_startswith (py_strip first_line) FENCE then 1 else 0) in
              case py_index lines (- 1) of
                Inl e \<Rightarrow> Inl e
              | Inr last_line \<Rightarrow>
                  (let end_idx = (if py_strip last_line = FENCE then - 1 else int (length lines))
                   in Inr (py_strip (py_join [10] (py_slice lines start_idx end_idx))))))
      else Inr text)"

definition replace_literals :: "pystr \<Rightarrow> pystr" where
  "replace_literals cleaned =
     py_replace (py_replace (py_replace cleaned (ustr ''True'') (ustr ''true''))
       (ustr ''False'') (ustr ''false'')) (ustr ''None'') (ustr ''null'')"

definition repair_attempts :: "pystr \<Rightarrow> pystr list \<times> (py_error + json)" where
  "repair_attempts json_str =
     (case json_loads json_str of
        Inr v \<Rightarrow> ([json_str], Inr v)
      | Inl e \<Rightarrow>
          if e = JSONDecodeError then
            (let cleaned = re_sub_trailing_commas json_str in
             case json_loads cleaned of
               Inr v \<Rightarrow> ([json_str, cleaned], Inr v)
             | Inl e \<Rightarrow>
                 if e = JSONDecodeError then
                   (let cleaned' = replace_literals cleaned in
                    case json_loads cleaned' of
                      Inr v \<Rightarrow> ([json_str, cleaned, cleaned'], Inr v)
                    | Inl e \<Rightarrow>
                        if e = JSONDecodeError then ([json_str, cleaned, cleaned'], Inr JNull)
                        else ([json_str, cleaned, cleaned'], Inl e))
                 else ([json_str, cleaned], Inl e))
          else ([json_str], Inl e))"

definition parse_text :: "pystr \<Rightarrow> pystr list \<times> (py_error + json)" where
  "parse_text text =
     (case json_loads text of
        Inr v \<Rightarrow> ([text], Inr v)
      | Inl e \<Rightarrow>
          if e = JSONDecodeError then
            (let first_brace = py_find text 123; last_brace = py_rfind text 125 in
             if first_brace \<noteq> - 1 \<and> last_brace \<noteq> - 1 \<and> last_brace > first_brace then
               (let r = repair_attempts (py_slice text first_brace (last_brace + 1))
                in (text # fst r, snd r))
             else ([text], Inr JNull))
          else ([text], Inl e))"

definition parse_llm_response_run :: "pystr \<Rightarrow> pystr list \<times> (py_error + json)" where
  "parse_llm_response_run response_text =
     (if response_text = [] then ([], Inr JNull)
      else
        (case remove_code_block (py_strip response_text) of
           Inl e \<Rightarrow> ([], Inl e)
         | Inr text \<Rightarrow> parse_text text))"

definition parse_llm_response :: "pystr \<Rightarrow> py_error + json" where
  "parse_llm_response response_text = snd (parse_llm_response_run response_text)"

definition parse_attempts :: "pystr \<Rightarrow> pystr list" where
  "parse_attempts response_text = fst (parse_llm_response_run response_text)"

lemmas py_eval = parse_llm_response_def parse_attempts_def parse_llm_response_run_def parse_text_def
  repair_attempts_def replace_literals_def remove_code_block_def FENCE_def py_strip_def
  py_isspace_def py_startswith_def py_split.simps py_index_def py_slice_def slice_bound_def
  py_find_def py_rfind_def

section \<open>Properties of the response recoverer\<close>

subsection \<open>Exceptions that reach the caller\<close>

text \<open>
  \<^verbatim>\<open>lines[0]\<close> and \<^verbatim>\<open>lines[-1]\<close> are always in range, because
  \<^verbatim>\<open>str.split\<close> never returns an empty list: the fence removal raises nothing.
\<close>

lemma py_split_nonempty: "py_split s sep \<noteq> []"
  by (subst py_split.simps) (simp split: list.splits)

lemma py_index_first: "xs \<noteq> [] \<Longrightarrow> py_index xs 0 = Inr (hd xs)"
  by (cases xs) (auto simp: py_index_def)

lemma py_index_last: "xs \<noteq> [] \<Longrightarrow> py_index xs (- 1) = Inr (last xs)"
proof -
  assume ne: "xs \<noteq> []"
  then have "nat (int (length xs) - 1) = length xs - 1" and "1 \<le> length xs"
    by (cases xs; simp)+
  with ne show ?thesis by (simp add: py_index_def last_conv_nth)
qed

lemma remove_code_block_returns: "\<exists>text. remove_code_block s = Inr text"
  using py_index_first [OF py_split_nonempty, of s 10] py_index_last [OF py_split_nonempty, of s 10]
  by (simp add: remove_code_block_def Let_def)

text \<open>
  Each \<^verbatim>\<open>try\<close> block of the recoverer catches \<open>JSONDecodeError\<close> and nothing
  else, so any other exception of the decoder passes through all of them.
\<close>

lemma py_strip_unchanged:
  assumes "s \<noteq> []" and "\<not> py_isspace (hd s)" and "\<not> py_isspace (last s)"
  shows "py_strip s = s"
proof -
  from assms(1,2) have a: "dropWhile py_isspace s = s" by (cases s) auto
  from assms(1,3) have "dropWhile py_isspace (rev s) = rev s"
    by (cases "rev s") (auto simp: last_rev [symmetric] simp del: last_rev)
  with a show ?thesis by (simp add: py_strip_def)
qed

lemma remove_code_block_no_fence: "\<not> py_startswith s FENCE \<Longrightarrow> remove_code_block s = Inr s"
  by (simp add: remove_code_block_def)

lemma scan_once_long_integer:
  assumes "int_max_str_digits < Suc n"
  shows "scan_once depth (replicate (Suc n) 49) = Inl ValueError"
proof -
  have "match_integer (49 # replicate n 49) = Some (49 # replicate n 49, [])"
    by (simp add: match_integer_def is_digit_def)
  then have "match_number (49 # replicate n 49) = Some (parse_int (49 # replicate n 49), [])"
    by (simp add: match_number_def match_frac_def match_exp_def)
  moreover from assms have "parse_int (49 # replicate n 49) = Inl ValueError"
    by (simp add: parse_int_def)
  ultimately show ?thesis
    by (simp add: scan_once.simps ustr_def)
qed

lemma scan_once_deep_nesting:
  "recursion_limit \<le> depth + n \<Longrightarrow> scan_once depth (replicate (Suc n) 91) = Inl RecursionError"
proof (induction n arbitrary: depth)
  case 0
  then show ?case by (simp add: scan_once.simps)
next
  case (Suc n)
  show ?case
  proof (cases "recursion_limit \<le> depth")
    case True
    then show ?thesis by (simp add: scan_once.simps)
  next
    case False
    from Suc.prems have "recursion_limit \<le> Suc depth + n" by simp
    from Suc.IH [OF this] have "JSONArray (Suc depth) [] (replicate (Suc n) 91) = Inl RecursionError"
      by (subst JSONArray.simps) simp
    with False show ?thesis
      by (simp add: scan_once.simps skip_ws_def json_ws_def)
  qed
qed

lemma parse_llm_response_propagates:
  assumes loads: "json_loads s = Inl e" and e: "e \<noteq> JSONDecodeError"
    and s: "s \<noteq> []" "\<not> py_isspace (hd s)" "\<not> py_isspace (last s)" "\<not> py_startswith s FENCE"
  shows "parse_llm_response s = Inl e"
  using assms
  by (simp add: parse_llm_response_def parse_llm_response_run_def py_strip_unchanged
      remove_code_block_no_fence parse_text_def)

text \<open>
  Claim C1 says that \<open>parse_llm_response\<close> returns a value for every input string and
  never lets an exception reach the caller. It fails on a response of 4301 digits, where
  the integer conversion raises \<open>ValueError\<close>, and on a response of 1001 opening
  brackets, where the scanner raises \<open>RecursionError\<close>.
\<close>

theorem parse_llm_response_raises:
  "parse_llm_response (replicate 4301 49) = Inl ValueError
   \<and> parse_llm_response (replicate 1001 91) = Inl RecursionError"
proof
  have "json_loads (replicate (Suc 4300) 49) = Inl ValueError"
    using scan_once_long_integer [of 4300 0]
    by (simp add: json_loads_def skip_ws_def json_ws_def int_max_str_digits_def)
  from parse_llm_response_propagates [OF this]
  have "parse_llm_response (replicate (Suc 4300) 49) = Inl ValueError"
    by (simp add: py_isspace_def py_startswith_def FENCE_def)
  then show "parse_llm_response (replicate 4301 49) = Inl ValueError" by simp
  have "json_loads (replicate (Suc 1000) 91) = Inl RecursionError"
    using scan_once_deep_nesting [of 0 1000]
    by (simp add: json_loads_def skip_ws_def json_ws_def recursion_limit_def)
  from parse_llm_response_propagates [OF this]
  have "parse_llm_response (replicate (Suc 1000) 91) = Inl RecursionError"
    by (simp add: py_isspace_def py_startswith_def FENCE_def)
  then show "parse_llm_response (replicate 1001 91) = Inl RecursionError" by simp
qed

subsection \<open>The shape of the returned value\<close>

text \<open>
  Claim C2 says that \<open>parse_llm_response\<close> returns \<open>JNull\<close> or a \<open>JObject\<close>, as
  the annotation \<^verbatim>\<open>Optional[dict]\<close> promises. The direct parse returns whatever
  \<^verbatim>\<open>json.loads\<close> decodes, so a response that is a JSON array comes back as a list.
\<close>

theorem parse_llm_response_returns_list:
  "parse_llm_response (ustr ''[1]'') = Inr (JArray [JInt 1])"
  by (simp add: py_eval json_eval Let_def)

subsection \<open>Empty and blank responses\<close>

lemma dropWhile_all: "list_all P s \<Longrightarrow> dropWhile P s = []"
  by (induction s) auto

lemma py_strip_whitespace: "list_all py_isspace s \<Longrightarrow> py_strip s = []"
  by (simp add: py_strip_def dropWhile_all)

lemma parse_text_empty: "parse_text [] = ([[]], Inr JNull)"
  by (simp add: parse_text_def json_eval py_find_def py_rfind_def)

lemma remove_code_block_empty: "remove_code_block [] = Inr []"
  by (simp add: remove_code_block_def py_startswith_def FENCE_def)

text \<open>
  Claim C3 as stated: a blank response yields \<open>JNull\<close> and no text is handed to the
  decoder. The guard \<^verbatim>\<open>if not response_text\<close> tests emptiness only; a response of
  one space passes it, is stripped to the empty string, and that string is handed to
  \<^verbatim>\<open>json.loads\<close> once.
\<close>

theorem whitespace_input_counterexample:
  "list_all py_isspace (ustr '' '') \<and> parse_llm_response (ustr '' '') = Inr JNull
   \<and> parse_attempts (ustr '' '') = [[]] \<and> parse_attempts (ustr '' '') \<noteq> []"
  by (simp add: py_eval json_eval Let_def)

text \<open>
  Claim C3, amended: every empty or blank response yields \<open>JNull\<close>; the empty response
  without any parse attempt, a blank one after exactly one attempt, on the empty string.
\<close>

theorem whitespace_input_returns_null:
  "list_all py_isspace response_text \<Longrightarrow>
     parse_llm_response response_text = Inr JNull
     \<and> parse_attempts response_text = (if response_text = [] then [] else [[]])"
  by (simp add: parse_llm_response_def parse_attempts_def parse_llm_response_run_def
      py_strip_whitespace remove_code_block_empty parse_text_empty)

theorem whitespace_input_returns_null_witness:
  "list_all py_isspace [32, 10, 9] \<and> parse_llm_response [32, 10, 9] = Inr JNull
   \<and> parse_attempts [32, 10, 9] = [[]]"
proof -
  have h: "list_all py_isspace [32, 10, 9]" by (simp add: py_isspace_def)
  from whitespace_input_returns_null [OF h] h show ?thesis by simp
qed

subsection \<open>The literal repair is blind to string boundaries\<close>

text \<open>\<open>py_in sub s\<close> is Python's \<^verbatim>\<open>sub in s\<close> for strings.\<close>

fun py_in :: "pystr \<Rightarrow> pystr \<Rightarrow> bool" where
  "py_in sub [] = (sub = [])"
| "py_in sub (c # s) = (py_startswith (c # s) sub \<or> py_in sub s)"

lemma py_startswith_Nil [simp]: "py_startswith s []"
  by (simp add: py_startswith_def)

lemma py_startswith_Nil_left [simp]: "py_startswith [] w = (w = [])"
  by (auto simp: py_startswith_def)

lemma py_startswith_Cons [simp]: "py_startswith (c # s) (x # w) = (c = x \<and> py_startswith s w)"
  by (auto simp: py_startswith_def)

lemma py_startswith_append: "py_startswith (p @ s) p"
  by (simp add: py_startswith_def)

lemma py_in_Nil [simp]: "py_in [] s"
  by (cases s) simp_all

lemma py_in_drop: "py_in w (drop n s) \<Longrightarrow> py_in w s"
proof (induction s arbitrary: n)
  case Nil
  then show ?case by simp
next
  case (Cons c s)
  then show ?case by (cases n) auto
qed

lemma py_in_append_fresh:
  assumes "w \<noteq> []" and "hd w \<notin> set new"
  shows "py_in w (new @ r) \<Longrightarrow> py_in w r"
  using assms
proof (induction new)
  case Nil
  then show ?case by simp
next
  case (Cons a new)
  then show ?case by (cases w) auto
qed

lemma replace_reflects_prefix:
  assumes old: "old \<noteq> []"
    and clash: "\<And>k r. k < length w \<Longrightarrow> \<not> py_startswith (new @ r) (drop k w)"
  shows "py_startswith (py_replace s old new) (drop k w) \<Longrightarrow> py_startswith s (drop k w)"
proof (induction s arbitrary: k)
  case Nil
  with old show ?case by simp
next
  case (Cons c s)
  show ?case
  proof (cases "k < length w")
    case False
    then show ?thesis by simp
  next
    case True
    then obtain x where x: "drop k w = x # drop (Suc k) w"
      by (metis Cons_nth_drop_Suc)
    show ?thesis
    proof (cases "py_startswith (c # s) old")
      case True
      with old Cons.prems clash [OF \<open>k < length w\<close>] show ?thesis by simp
    next
      case False
      with old Cons.prems x have "c = x" and "py_startswith (py_replace s old new) (drop (Suc k) w)"
        by simp_all
      with Cons.IH [of "Suc k"] x show ?thesis by simp
    qed
  qed
qed

lemma replace_creates_no_occurrence:
  assumes old: "old \<noteq> []" and w: "w \<noteq> []" and fresh: "hd w \<notin> set new"
    and clash: "\<And>k r. k < length w \<Longrightarrow> \<not> py_startswith (new @ r) (drop k w)"
  shows "py_in w (py_replace s old new) \<Longrightarrow> py_in w s"
proof (induction s rule: length_induct)
  case (1 s)
  show ?case
  proof (cases s)
    case Nil
    with "1.prems" old w show ?thesis by simp
  next
    case (Cons c s')
    show ?thesis
    proof (cases "py_startswith (c # s') old")
      case True
      with old Cons "1.prems" have "py_in w (new @ py_replace (drop (length old) s) old new)"
        by simp
      from py_in_append_fresh [OF w fresh this]
      have "py_in w (py_replace (drop (length old) s) old new)" .
      moreover have "length (drop (length old) s) < length s"
        using old Cons by simp
      ultimately have "py_in w (drop (length old) s)"
        using "1.IH" by blast
      then show ?thesis by (rule py_in_drop)
    next
      case False
      with old Cons "1.prems" have p: "py_in w (c # py_replace s' old new)"
        and r: "py_replace s old new = c # py_replace s' old new"
        by simp_all
      show ?thesis
      proof (cases "py_startswith (c # py_replace s' old new) w")
        case True
        with r have "py_startswith (py_replace s old new) (drop 0 w)" by simp
        from replace_reflects_prefix [OF old clash this] have "py_startswith s w" by simp
        with Cons show ?thesis by simp
      next
        case False
        with p have "py_in w (py_replace s' old new)" by simp
        with "1.IH" Cons have "py_in w s'" by simp
        with Cons show ?thesis by simp
      qed
    qed
  qed
qed

lemma replace_removes_old:
  assumes old: "old \<noteq> []" and fresh: "hd old \<notin> set new"
    and clash: "\<And>k r. k < length (tl old) \<Longrightarrow> \<not> py_startswith (new @ r) (drop k (tl old))"
  shows "\<not> py_in old (py_replace s old new)"
proof (induction s rule: length_induct)
  case (1 s)
  show ?case
  proof (cases s)
    case Nil
    with old show ?thesis by simp
  next
    case (Cons c s')
    show ?thesis
    proof (cases "py_startswith (c # s') old")
      case True
      have "length (drop (length old) s) < length s"
        using old Cons by simp
      with "1.IH" have "\<not> py_in old (py_replace (drop (length old) s) old new)" by blast
      with py_in_append_fresh [OF old fresh]
      have "\<not> py_in old (new @ py_replace (drop (length old) s) old new)" by blast
      with True old Cons show ?thesis by simp
    next
      case False
      with old Cons have r: "py_replace s old new = c # py_replace s' old new" by simp
      have a: "\<not> py_in old (py_replace s' old new)"
        using "1.IH" Cons by simp
      have b: "\<not> py_startswith (c # py_replace s' old new) old"
      proof
        assume h: "py_startswith (c # py_replace s' old new) old"
        from old obtain x where o: "old = x # tl old" by (cases old) auto
        with h have "c = x" and "py_startswith (py_replace s' old new) (drop 0 (tl old))"
          by (metis py_startswith_Cons, metis drop0 py_startswith_Cons)
        from replace_reflects_prefix [OF old clash this(2)] \<open>c = x\<close> o
        have "py_startswith (c # s') old" by (metis drop0 py_startswith_Cons)
        with False show False by simp
      qed
      from a b r show ?thesis by simp
    qed
  qed
qed


lemma clash_rue:
  "k < length (tl (ustr ''True'')) \<Longrightarrow> \<not> py_startswith (ustr ''true'' @ r) (drop k (tl (ustr ''True'')))"
  by (auto simp: ustr_def less_Suc_eq_0_disj)

lemma clash_alse:
  "k < length (tl (ustr ''False'')) \<Longrightarrow> \<not> py_startswith (ustr ''false'' @ r) (drop k (tl (ustr ''False'')))"
  by (auto simp: ustr_def less_Suc_eq_0_disj)

lemma clash_one:
  "k < length (tl (ustr ''None'')) \<Longrightarrow> \<not> py_startswith (ustr ''null'' @ r) (drop k (tl (ustr ''None'')))"
  by (auto simp: ustr_def less_Suc_eq_0_disj)

lemma clash_True_false:
  "k < length (ustr ''True'') \<Longrightarrow> \<not> py_startswith (ustr ''false'' @ r) (drop k (ustr ''True''))"
  by (auto simp: ustr_def less_Suc_eq_0_disj)

lemma clash_True_null:
  "k < length (ustr ''True'') \<Longrightarrow> \<not> py_startswith (ustr ''null'' @ r) (drop k (ustr ''True''))"
  by (auto simp: ustr_def less_Suc_eq_0_disj)

lemma clash_False_null:
  "k < length (ustr ''False'') \<Longrightarrow> \<not> py_startswith (ustr ''null'' @ r) (drop k (ustr ''False''))"
  by (auto simp: ustr_def less_Suc_eq_0_disj)

lemma no_None_left: "\<not> py_in (ustr ''None'') (py_replace s (ustr ''None'') (ustr ''null''))"
  by (rule replace_removes_old [OF _ _ clash_one]) (simp_all add: ustr_def)

lemma no_False_left: "\<not> py_in (ustr ''False'') (py_replace s (ustr ''False'') (ustr ''false''))"
  by (rule replace_removes_old [OF _ _ clash_alse]) (simp_all add: ustr_def)

lemma no_True_left: "\<not> py_in (ustr ''True'') (py_replace s (ustr ''True'') (ustr ''true''))"
  by (rule replace_removes_old [OF _ _ clash_rue]) (simp_all add: ustr_def)

lemma True_not_created_by_false:
  "py_in (ustr ''True'') (py_replace s (ustr ''False'') (ustr ''false'')) \<Longrightarrow> py_in (ustr ''True'') s"
  by (rule replace_creates_no_occurrence [OF _ _ _ clash_True_false]) (simp_all add: ustr_def)

lemma True_not_created_by_null:
  "py_in (ustr ''True'') (py_replace s (ustr ''None'') (ustr ''null'')) \<Longrightarrow> py_in (ustr ''True'') s"
  by (rule replace_creates_no_occurrence [OF _ _ _ clash_True_null]) (simp_all add: ustr_def)

lemma False_not_created_by_null:
  "py_in (ustr ''False'') (py_replace s (ustr ''None'') (ustr ''null'')) \<Longrightarrow> py_in (ustr ''False'') s"
  by (rule replace_creates_no_occurrence [OF _ _ _ clash_False_null]) (simp_all add: ustr_def)

lemma replace_literals_leaves_none:
  "\<not> py_in (ustr ''True'') (replace_literals s)"
  "\<not> py_in (ustr ''False'') (replace_literals s)"
  "\<not> py_in (ustr ''None'') (replace_literals s)"
  unfolding replace_literals_def
  using no_None_left no_False_left no_True_left True_not_created_by_false
    True_not_created_by_null False_not_created_by_null
  by blast+

lemma replace_unchanged:
  assumes "old \<noteq> []"
  shows "\<not> py_in old s \<Longrightarrow> py_replace s old new = s"
  using assms by (induction s) auto

lemma replace_at_head:
  assumes "old \<noteq> []"
  shows "py_replace (old @ v) old new = new @ py_replace v old new"
proof -
  from assms obtain x xs where o: "old = x # xs" by (cases old) auto
  have "py_startswith (x # xs @ v) (x # xs)"
    using py_startswith_append [of "x # xs" v] by simp
  then show ?thesis unfolding o by simp
qed

lemma replace_inert_prefix:
  assumes "old \<noteq> []" and "hd old \<notin> set w"
  shows "py_replace (w @ v) old new = w @ py_replace v old new"
  using assms(2)
proof (induction w)
  case Nil
  then show ?case by simp
next
  case (Cons c w)
  from assms(1) obtain x xs where o: "old = x # xs" by (cases old) auto
  with Cons show ?case by simp
qed

lemma occurrence_within:
  assumes w: "w \<noteq> []" and u: "u \<noteq> []" and fresh: "hd w \<notin> set (tl old)"
    and occ: "py_startswith (u @ w @ v) old"
  shows "length old \<le> length u"
proof (rule ccontr)
  assume "\<not> length old \<le> length u"
  then have lt: "length u < length old" by simp
  from occ have t: "take (length old) (u @ w @ v) = old" by (simp add: py_startswith_def)
  have "old ! length u = take (length old) (u @ w @ v) ! length u" by (simp only: t)
  also have "\<dots> = (u @ w @ v) ! length u" by (rule nth_take [OF lt])
  also have "\<dots> = hd w" using w by (cases w) (simp_all add: nth_append)
  finally have h: "old ! length u = hd w" .
  from u lt obtain x xs where o: "old = x # xs" by (cases old) auto
  from u have "0 < length u" by simp
  with lt o have "old ! length u \<in> set (tl old)"
    by (cases "length u") auto
  with h fresh show False by simp
qed

lemma py_startswith_length: "py_startswith s p \<Longrightarrow> length p \<le> length s"
proof -
  assume "py_startswith s p"
  then have "length (take (length p) s) = length p" by (simp add: py_startswith_def)
  then show ?thesis by simp
qed

lemma replace_step_match:
  assumes "old \<noteq> []" and "py_startswith s old"
  shows "py_replace s old new = new @ py_replace (drop (length old) s) old new"
  using assms by (cases s) auto

lemma replace_step_skip:
  assumes "old \<noteq> []" and "\<not> py_startswith (c # s) old"
  shows "py_replace (c # s) old new = c # py_replace s old new"
  using assms by simp

lemma replace_at_word:
  assumes old: "old \<noteq> []" and w: "w \<noteq> []" and fresh: "hd w \<notin> set (tl old)"
    and base: "\<And>v. py_replace (w @ v) old new = w' @ py_replace v old new"
  shows "py_replace (u @ w @ v) old new = py_replace u old new @ w' @ py_replace v old new"
proof (induction u rule: length_induct)
  case (1 u)
  show ?case
  proof (cases u)
    case Nil
    with base show ?thesis by (simp add: py_replace.simps(1) old)
  next
    case (Cons c u')
    show ?thesis
    proof (cases "py_startswith (u @ w @ v) old")
      case True
      from occurrence_within [OF w _ fresh True] Cons have le: "length old \<le> length u" by simp
      with True have su: "py_startswith u old" by (simp add: py_startswith_def)
      from le have dr: "drop (length old) (u @ w @ v) = drop (length old) u @ w @ v" by simp
      from old Cons have "length (drop (length old) u) < length u" by simp
      with "1.IH" have ih: "py_replace (drop (length old) u @ w @ v) old new =
        py_replace (drop (length old) u) old new @ w' @ py_replace v old new" by blast
      have "py_replace (u @ w @ v) old new = new @ py_replace (drop (length old) u @ w @ v) old new"
        using replace_step_match [OF old True, of new] by (simp only: dr)
      also have "\<dots> = (new @ py_replace (drop (length old) u) old new) @ w' @ py_replace v old new"
        by (simp only: ih append_assoc)
      also have "new @ py_replace (drop (length old) u) old new = py_replace u old new"
        by (rule replace_step_match [OF old su, symmetric])
      finally show ?thesis .
    next
      case False
      have nu: "\<not> py_startswith (c # u') old"
      proof
        assume "py_startswith (c # u') old"
        with Cons have su: "py_startswith u old" by simp
        from su py_startswith_length [OF su]
        have "take (length old) u = old" and "length old \<le> length u"
          by (simp_all add: py_startswith_def)
        then have "py_startswith (u @ w @ v) old" by (simp add: py_startswith_def)
        with False show False by simp
      qed
      from False Cons have "\<not> py_startswith (c # u' @ w @ v) old" by simp
      from replace_step_skip [OF old this, of new] "1.IH" Cons replace_step_skip [OF old nu, of new]
      show ?thesis by simp
    qed
  qed
qed

lemma replace_word_replaced:
  assumes "old \<noteq> []" and "hd old \<notin> set (tl old)"
  shows "py_replace (u @ old @ v) old new = py_replace u old new @ new @ py_replace v old new"
  by (rule replace_at_word [OF assms(1) assms(1) assms(2)]) (rule replace_at_head [OF assms(1)])

lemma replace_word_inert:
  assumes "old \<noteq> []" and "w \<noteq> []" and "hd w \<notin> set (tl old)" and "hd old \<notin> set w"
  shows "py_replace (u @ w @ v) old new = py_replace u old new @ w @ py_replace v old new"
  by (rule replace_at_word [OF assms(1) assms(2) assms(3)])
    (rule replace_inert_prefix [OF assms(1) assms(4)])

lemma replace_literals_True:
  "replace_literals (u @ ustr ''True'' @ v) =
     replace_literals u @ ustr ''true'' @ replace_literals v"
proof -
  have s1: "py_replace (a @ ustr ''True'' @ b) (ustr ''True'') (ustr ''true'') =
      py_replace a (ustr ''True'') (ustr ''true'') @ ustr ''true'' @ py_replace b (ustr ''True'') (ustr ''true'')" for a b
    by (rule replace_word_replaced) (simp_all add: ustr_def)
  have s2: "py_replace (a @ ustr ''true'' @ b) (ustr ''False'') (ustr ''false'') =
      py_replace a (ustr ''False'') (ustr ''false'') @ ustr ''true'' @ py_replace b (ustr ''False'') (ustr ''false'')" for a b
    by (rule replace_word_inert) (simp_all add: ustr_def)
  have s3: "py_replace (a @ ustr ''true'' @ b) (ustr ''None'') (ustr ''null'') =
      py_replace a (ustr ''None'') (ustr ''null'') @ ustr ''true'' @ py_replace b (ustr ''None'') (ustr ''null'')" for a b
    by (rule replace_word_inert) (simp_all add: ustr_def)
  show ?thesis unfolding replace_literals_def by (simp only: s1 s2 s3)
qed

lemma replace_literals_False:
  "replace_literals (u @ ustr ''False'' @ v) =
     replace_literals u @ ustr ''false'' @ replace_literals v"
proof -
  have s1: "py_replace (a @ ustr ''False'' @ b) (ustr ''True'') (ustr ''true'') =
      py_replace a (ustr ''True'') (ustr ''true'') @ ustr ''False'' @ py_replace b (ustr ''True'') (ustr ''true'')" for a b
    by (rule replace_word_inert) (simp_all add: ustr_def)
  have s2: "py_replace (a @ ustr ''False'' @ b) (ustr ''False'') (ustr ''false'') =
      py_replace a (ustr ''False'') (ustr ''false'') @ ustr ''false'' @ py_replace b (ustr ''False'') (ustr ''false'')" for a b
    by (rule replace_word_replaced) (simp_all add: ustr_def)
  have s3: "py_replace (a @ ustr ''false'' @ b) (ustr ''None'') (ustr ''null'') =
      py_replace a (ustr ''None'') (ustr ''null'') @ ustr ''false'' @ py_replace b (ustr ''None'') (ustr ''null'')" for a b
    by (rule replace_word_inert) (simp_all add: ustr_def)
  show ?thesis unfolding replace_literals_def by (simp only: s1 s2 s3)
qed

lemma replace_literals_None:
  "replace_literals (u @ ustr ''None'' @ v) =
     replace_literals u @ ustr ''null'' @ replace_literals v"
proof -
  have s1: "py_replace (a @ ustr ''None'' @ b) (ustr ''True'') (ustr ''true'') =
      py_replace a (ustr ''True'') (ustr ''true'') @ ustr ''None'' @ py_replace b (ustr ''True'') (ustr ''true'')" for a b
    by (rule replace_word_inert) (simp_all add: ustr_def)
  have s2: "py_replace (a @ ustr ''None'' @ b) (ustr ''False'') (ustr ''false'') =
      py_replace a (ustr ''False'') (ustr ''false'') @ ustr ''None'' @ py_replace b (ustr ''False'') (ustr ''false'')" for a b
    by (rule replace_word_inert) (simp_all add: ustr_def)
  have s3: "py_replace (a @ ustr ''None'' @ b) (ustr ''None'') (ustr ''null'') =
      py_replace a (ustr ''None'') (ustr ''null'') @ ustr ''null'' @ py_replace b (ustr ''None'') (ustr ''null'')" for a b
    by (rule replace_word_replaced) (simp_all add: ustr_def)
  show ?thesis unfolding replace_literals_def by (simp only: s1 s2 s3)
qed

lemma replace_literals_unchanged:
  assumes "\<not> py_in (ustr ''True'') s" and "\<not> py_in (ustr ''False'') s"
    and "\<not> py_in (ustr ''None'') s"
  shows "replace_literals s = s"
proof -
  have ne: "ustr ''True'' \<noteq> []" "ustr ''False'' \<noteq> []" "ustr ''None'' \<noteq> []"
    by (simp_all add: ustr_def)
  have 1: "py_replace s (ustr ''True'') (ustr ''true'') = s"
    by (rule replace_unchanged [OF ne(1) assms(1)])
  have 2: "py_replace s (ustr ''False'') (ustr ''false'') = s"
    by (rule replace_unchanged [OF ne(2) assms(2)])
  have 3: "py_replace s (ustr ''None'') (ustr ''null'') = s"
    by (rule replace_unchanged [OF ne(3) assms(3)])
  show ?thesis unfolding replace_literals_def by (simp only: 1 2 3)
qed

text \<open>
  Claim C10. The three \<^verbatim>\<open>str.replace\<close> calls rewrite every occurrence of
  \<^verbatim>\<open>True\<close>, \<^verbatim>\<open>False\<close> and \<^verbatim>\<open>None\<close>, wherever it stands in the text:
  the repair of a text around such a word is the repair of what precedes it, the lowercase
  word, and the repair of what follows it; a text without these words is left as it is;
  and no occurrence is left in the result. On the response below the direct parse, the
  parse of the brace span and the parse after the comma repair all fail, the fourth
  attempt succeeds, and the field written \<^verbatim>\<open>"None"\<close> in the response is returned as
  the string \<^verbatim>\<open>null\<close>.
\<close>

theorem literal_repair_rewrites_string_values:
  \<open>replace_literals (u @ ustr ''True'' @ v) = replace_literals u @ ustr ''true'' @ replace_literals v
   \<and> replace_literals (u @ ustr ''False'' @ v) = replace_literals u @ ustr ''false'' @ replace_literals v
   \<and> replace_literals (u @ ustr ''None'' @ v) = replace_literals u @ ustr ''null'' @ replace_literals v
   \<and> (\<not> py_in (ustr ''True'') s \<and> \<not> py_in (ustr ''False'') s \<and> \<not> py_in (ustr ''None'') s
        \<longrightarrow> replace_literals s = s)
   \<and> \<not> py_in (ustr ''True'') (replace_literals s)
   \<and> \<not> py_in (ustr ''False'') (replace_literals s)
   \<and> \<not> py_in (ustr ''None'') (replace_literals s)
   \<and> json_loads (ustr ''{"a": True, "b": "None"}'') = Inl JSONDecodeError
   \<and> re_sub_trailing_commas (ustr ''{"a": True, "b": "None"}'') = ustr ''{"a": True, "b": "None"}''
   \<and> parse_attempts (ustr ''{"a": True, "b": "None"}'') =
     [ustr ''{"a": True, "b": "None"}'', ustr ''{"a": True, "b": "None"}'',
      ustr ''{"a": True, "b": "None"}'', ustr ''{"a": true, "b": "null"}'']
   \<and> parse_llm_response (ustr ''{"a": True, "b": "None"}'') =
     Inr (JObject [(ustr ''a'', JBool True), (ustr ''b'', JString (ustr ''null''))])
   \<and> ustr ''null'' \<noteq> ustr ''None''\<close>
proof (intro conjI)
  show "replace_literals (u @ ustr ''True'' @ v) = replace_literals u @ ustr ''true'' @ replace_literals v"
    by (rule replace_literals_True)
  show "replace_literals (u @ ustr ''False'' @ v) = replace_literals u @ ustr ''false'' @ replace_literals v"
    by (rule replace_literals_False)
  show "replace_literals (u @ ustr ''None'' @ v) = replace_literals u @ ustr ''null'' @ replace_literals v"
    by (rule replace_literals_None)
  show "\<not> py_in (ustr ''True'') s \<and> \<not> py_in (ustr ''False'') s \<and> \<not> py_in (ustr ''None'') s
        \<longrightarrow> replace_literals s = s"
    by (simp add: replace_literals_unchanged)
  show "\<not> py_in (ustr ''True'') (replace_literals s)"
    and "\<not> py_in (ustr ''False'') (replace_literals s)"
    and "\<not> py_in (ustr ''None'') (replace_literals s)"
    by (rule replace_literals_leaves_none)+
qed (simp_all add: py_eval json_eval Let_def)

theorem literal_repair_rewrites_string_values_witness:
  \<open>replace_literals (ustr ''{"b": "'' @ ustr ''None'' @ ustr ''"}'') =
     ustr ''{"b": "'' @ ustr ''null'' @ ustr ''"}''
   \<and> replace_literals (ustr ''"}'') = ustr ''"}''\<close>
proof -
  have a: \<open>\<not> py_in (ustr ''True'') (ustr ''{"b": "'') \<and> \<not> py_in (ustr ''False'') (ustr ''{"b": "'')
      \<and> \<not> py_in (ustr ''None'') (ustr ''{"b": "'')\<close>
    by (simp add: ustr_def)
  have b: \<open>\<not> py_in (ustr ''True'') (ustr ''"}'') \<and> \<not> py_in (ustr ''False'') (ustr ''"}'')
      \<and> \<not> py_in (ustr ''None'') (ustr ''"}'')\<close>
    by (simp add: ustr_def)
  from literal_repair_rewrites_string_values [of \<open>ustr ''{"b": "''\<close> \<open>ustr ''"}''\<close> \<open>ustr ''{"b": "''\<close>]
    literal_repair_rewrites_string_values [of \<open>ustr ''{"b": "''\<close> \<open>ustr ''"}''\<close> \<open>ustr ''"}''\<close>] a b
  show ?thesis by simp
qed

subsection \<open>Code fences\<close>

text \<open>
  \<^verbatim>\<open>str.split\<close> cuts a text at each newline and \<^verbatim>\<open>str.join\<close> puts the lines
  together again, so the lines between the first and the last one of a fenced text are
  the lines of the text inside the fence.
\<close>

lemma py_split_line:
  assumes "sep \<notin> set a"
  shows "py_split (a @ sep # r) sep = a # py_split r sep"
proof -
  from assms have "dropWhile (\<lambda>c. c \<noteq> sep) (a @ sep # r) = sep # r"
    and "takeWhile (\<lambda>c. c \<noteq> sep) (a @ sep # r) = a"
    by (induction a) auto
  then show ?thesis by (subst py_split.simps) simp
qed

lemma py_split_single: "sep \<notin> set b \<Longrightarrow> py_split b sep = [b]"
proof -
  assume "sep \<notin> set b"
  then have d: "dropWhile (\<lambda>c. c \<noteq> sep) b = []" by (induction b) auto
  show ?thesis by (subst py_split.simps) (simp only: d list.case)
qed

lemma py_split_last_line:
  assumes "sep \<notin> set b"
  shows "py_split (t @ sep # b) sep = py_split t sep @ [b]"
proof (induction t rule: length_induct)
  case (1 t)
  show ?case
  proof (cases "sep \<in> set t")
    case False
    then show ?thesis
      by (simp add: py_split_line py_split_single assms)
  next
    case True
    then obtain a r where t: "t = a @ sep # r" and a: "sep \<notin> set a"
      by (auto dest: split_list_first)
    then have "length r < length t" by simp
    with 1 have "py_split (r @ sep # b) sep = py_split r sep @ [b]" by blast
    with py_split_line [OF a, of "r @ sep # b"] py_split_line [OF a, of r] t
    show ?thesis by simp
  qed
qed

lemma py_join_split: "py_join [sep] (py_split t sep) = t"
proof (induction t rule: length_induct)
  case (1 t)
  show ?case
  proof (cases "sep \<in> set t")
    case False
    then show ?thesis by (simp add: py_split_single)
  next
    case True
    then obtain a r where t: "t = a @ sep # r" and a: "sep \<notin> set a"
      by (auto dest: split_list_first)
    then have "length r < length t" by simp
    with 1 have ih: "py_join [sep] (py_split r sep) = r" by blast
    obtain x xs where x: "py_split r sep = x # xs"
      using py_split_nonempty [of r sep] by (cases "py_split r sep") auto
    with ih t py_split_line [OF a, of r] show ?thesis by simp
  qed
qed

lemma py_slice_inner: "py_slice (x # ys @ [z]) 1 (- 1) = ys"
  by (simp add: py_slice_def slice_bound_def Let_def)

text \<open>
  A text that \<^verbatim>\<open>json.loads\<close> decodes starts, after its whitespace, with the first
  character of a JSON value. That character is neither whitespace for \<^verbatim>\<open>str.strip\<close>
  nor a backtick, so the trimmed text does not start with a fence.
\<close>

lemma strip_keeps_head:
  assumes "\<not> py_isspace c"
  shows "rev (dropWhile py_isspace (rev (c # r))) = c # rev (dropWhile py_isspace (rev r))"
proof -
  from assms have "dropWhile py_isspace (xs @ [c]) = dropWhile py_isspace xs @ [c]" for xs
    by (induction xs) auto
  then show ?thesis by simp
qed

lemma match_integer_head: "match_integer (c # r) = Some x \<Longrightarrow> c = 45 \<or> is_digit c"
  by (auto simp: match_integer_def is_digit_def Let_def split: if_splits list.splits)

lemma match_number_None: "match_number s = None \<longleftrightarrow> match_integer s = None"
  by (auto simp: match_number_def Let_def split: option.splits prod.splits)

lemma scan_once_head:
  assumes "scan_once depth (c # r) = Inr x"
  shows "c = 34 \<or> c = 123 \<or> c = 91 \<or> c = 110 \<or> c = 116 \<or> c = 102 \<or> c = 78 \<or> c = 73
         \<or> c = 45 \<or> is_digit c"
proof (cases "match_integer (c # r)")
  case None
  then have "match_number (c # r) = None" by (simp add: match_number_None)
  with assms show ?thesis
    by (simp add: scan_once.simps split: if_splits)
next
  case (Some a)
  then show ?thesis by (auto dest: match_integer_head)
qed

lemma json_loads_no_fence:
  assumes "json_loads t = Inr v"
  shows "t \<noteq> []" and "\<not> py_startswith (py_strip t) FENCE"
proof -
  from assms obtain x where x: "scan_once 0 (skip_ws t) = Inr x"
    by (auto simp: json_loads_def split: sum.splits)
  then obtain c r where c: "skip_ws t = c # r"
    by (cases "skip_ws t") (auto simp: scan_once.simps)
  then show "t \<noteq> []" by (auto simp: skip_ws_def)
  from x c have "c = 34 \<or> c = 123 \<or> c = 91 \<or> c = 110 \<or> c = 116 \<or> c = 102 \<or> c = 78 \<or> c = 73
         \<or> c = 45 \<or> is_digit c"
    by (auto dest: scan_once_head)
  then have nsp: "\<not> py_isspace c" and nf: "c \<noteq> 96"
    by (auto simp: py_isspace_def is_digit_def)
  have sub: "json_ws a \<Longrightarrow> py_isspace a" for a
    by (auto simp: json_ws_def py_isspace_def)
  from c nsp have "dropWhile py_isspace t = c # r"
    unfolding skip_ws_def
  proof (induction t)
    case Nil
    then show ?case by simp
  next
    case (Cons a t)
    then show ?case using sub [of a] by (auto split: if_splits)
  qed
  then have "py_strip t = c # rev (dropWhile py_isspace (rev r))"
    by (simp only: py_strip_def strip_keeps_head [OF nsp])
  with nf show "\<not> py_startswith (py_strip t) FENCE"
    by (simp add: FENCE_def)
qed

text \<open>
  A text between an opening fence line, with any tag that holds no newline, and a closing
  fence line: the fence removal returns the trimmed text.
\<close>

lemma fenced_text:
  assumes "10 \<notin> set tag"
  shows "remove_code_block (py_strip (FENCE @ tag @ 10 # t @ 10 # FENCE)) = Inr (py_strip t)"
proof -
  have nsp: "\<not> py_isspace 96" by (simp add: py_isspace_def)
  have w: "py_strip (FENCE @ tag @ 10 # t @ 10 # FENCE) = FENCE @ tag @ 10 # t @ 10 # FENCE"
    by (rule py_strip_unchanged) (simp_all add: FENCE_def nsp)
  have f: "10 \<notin> set FENCE" by (simp add: FENCE_def)
  from assms f have "10 \<notin> set (FENCE @ tag)" by simp
  from py_split_line [OF this, of "t @ 10 # FENCE"] py_split_last_line [OF f, of t]
  have lines: "py_split (FENCE @ tag @ 10 # t @ 10 # FENCE) 10
                 = (FENCE @ tag) # py_split t 10 @ [FENCE]"
    by simp
  have first: "py_index ((FENCE @ tag) # py_split t 10 @ [FENCE]) 0 = Inr (FENCE @ tag)"
    using py_index_first [of "(FENCE @ tag) # py_split t 10 @ [FENCE]"] by simp
  have last: "py_index ((FENCE @ tag) # py_split t 10 @ [FENCE]) (- 1) = Inr FENCE"
    using py_index_last [of "(FENCE @ tag) # py_split t 10 @ [FENCE]"] by simp
  have "py_strip (FENCE @ tag) = 96 # rev (dropWhile py_isspace (rev ([96, 96] @ tag)))"
    unfolding py_strip_def FENCE_def using nsp strip_keeps_head [OF nsp, of "[96, 96] @ tag"]
    by simp
  also have "\<dots> = 96 # 96 # rev (dropWhile py_isspace (rev ([96] @ tag)))"
    using strip_keeps_head [OF nsp, of "[96] @ tag"] by simp
  also have "\<dots> = 96 # 96 # 96 # rev (dropWhile py_isspace (rev tag))"
    using strip_keeps_head [OF nsp, of tag] by simp
  finally have tagline: "py_startswith (py_strip (FENCE @ tag)) FENCE"
    by (simp add: FENCE_def)
  have closing: "py_strip FENCE = FENCE"
    by (rule py_strip_unchanged) (simp_all add: FENCE_def nsp)
  have "py_startswith (FENCE @ tag @ 10 # t @ 10 # FENCE) FENCE"
    by (rule py_startswith_append)
  then show ?thesis
    unfolding w
    by (simp add: remove_code_block_def lines first last tagline closing py_slice_inner
        py_join_split Let_def)
qed

text \<open>
  Claim C4. Let \<open>t\<close> be a text that \<^verbatim>\<open>json.loads\<close> decodes to an object, and let
  \<open>tag\<close> be any text without a newline, the empty one included. The response made of
  the opening fence with the tag, a newline, \<open>t\<close>, a newline and the closing fence gives
  the same result as \<open>t\<close> itself, after the same parse attempts; when \<open>t\<close> has no
  whitespace around it that result is the object. A text that does not start with a
  fence is returned unchanged by the fence removal.
\<close>

theorem fence_removal:
  assumes "json_loads t = Inr (JObject kv)" and "10 \<notin> set tag"
  shows "parse_llm_response (FENCE @ tag @ 10 # t @ 10 # FENCE) = parse_llm_response t
         \<and> parse_attempts (FENCE @ tag @ 10 # t @ 10 # FENCE) = parse_attempts t
         \<and> (py_strip t = t \<longrightarrow> parse_llm_response t = Inr (JObject kv))
         \<and> (\<forall>s. \<not> py_startswith s FENCE \<longrightarrow> remove_code_block s = Inr s)"
proof -
  have ne: "FENCE @ tag @ 10 # t @ 10 # FENCE \<noteq> []" by simp
  from json_loads_no_fence [OF assms(1)]
  have t: "t \<noteq> []" and nf: "remove_code_block (py_strip t) = Inr (py_strip t)"
    by (simp_all add: remove_code_block_no_fence)
  have run: "parse_llm_response_run (FENCE @ tag @ 10 # t @ 10 # FENCE)
               = parse_llm_response_run t"
    by (simp add: parse_llm_response_run_def fenced_text [OF assms(2)] t nf)
  have "parse_llm_response t = Inr (JObject kv)" if "py_strip t = t"
    using that nf t assms(1)
    by (simp add: parse_llm_response_def parse_llm_response_run_def parse_text_def)
  with run show ?thesis
    by (simp add: parse_llm_response_def parse_attempts_def remove_code_block_no_fence)
qed

text \<open>
  An object on two lines, in a fence tagged \<^verbatim>\<open>json\<close> and in a fence without a tag.
\<close>

theorem fence_removal_witness:
  \<open>json_loads (ustr ''{"a": 1,\<newline> "b": null}'')
       = Inr (JObject [(ustr ''a'', JInt 1), (ustr ''b'', JNull)])
   \<and> 10 \<notin> set (ustr ''json'')
   \<and> parse_llm_response (FENCE @ ustr ''json'' @ 10 # ustr ''{"a": 1,\<newline> "b": null}'' @ 10 # FENCE)
       = Inr (JObject [(ustr ''a'', JInt 1), (ustr ''b'', JNull)])
   \<and> parse_llm_response (FENCE @ [] @ 10 # ustr ''{"a": 1,\<newline> "b": null}'' @ 10 # FENCE)
       = Inr (JObject [(ustr ''a'', JInt 1), (ustr ''b'', JNull)])
   \<and> parse_attempts (FENCE @ ustr ''json'' @ 10 # ustr ''{"a": 1,\<newline> "b": null}'' @ 10 # FENCE)
       = [ustr ''{"a": 1,\<newline> "b": null}'']
   \<and> remove_code_block (ustr ''{"a": 1,\<newline> "b": null}'') = Inr (ustr ''{"a": 1,\<newline> "b": null}'')\<close>
proof -
  have a: \<open>json_loads (ustr ''{"a": 1,\<newline> "b": null}'')
       = Inr (JObject [(ustr ''a'', JInt 1), (ustr ''b'', JNull)])\<close>
    by (simp add: json_eval Let_def)
  have b: "10 \<notin> set (ustr ''json'')" by (simp add: ustr_def)
  have c: "10 \<notin> set ([] :: pystr)" by simp
  have d: \<open>py_strip (ustr ''{"a": 1,\<newline> "b": null}'') = ustr ''{"a": 1,\<newline> "b": null}''\<close>
    by (simp add: py_strip_def py_isspace_def ustr_def)
  have e: \<open>\<not> py_startswith (ustr ''{"a": 1,\<newline> "b": null}'') FENCE\<close>
    by (simp add: FENCE_def ustr_def)
  have f: \<open>parse_attempts (ustr ''{"a": 1,\<newline> "b": null}'') = [ustr ''{"a": 1,\<newline> "b": null}'']\<close>
    using a e d
    by (simp add: parse_attempts_def parse_llm_response_run_def parse_text_def
        remove_code_block_no_fence ustr_def)
  from fence_removal [OF a b] fence_removal [OF a c] a b d e f show ?thesis by simp
qed

subsection \<open>An object embedded in prose\<close>














subsection \<open>The repairs of the brace span\<close>




subsection \<open>Trailing commas\<close>







subsection \<open>Capitalized literals\<close>




section \<open>The default result\<close>

text \<open>
  \<^verbatim>\<open>get_default_result\<close> reads neither its receiver nor any other state; the
  receiver is kept as an argument so that two calls can be compared. \<open>bool_flags\<close>
  and \<open>list_fields\<close> collect every boolean and every list of a value, at any depth.
\<close>

definition get_default_result :: "'self \<Rightarrow> json" where
  "get_default_result self =
     JObject
       [(ustr ''prompt_injection'',
           JObject
             [(ustr ''detected'', JBool False),
              (ustr ''confidence'', JFloat (ustr ''0.0'')),
              (ustr ''evidence'', JArray []),
              (ustr ''technique'', JString (ustr ''none'')),
              (ustr ''explanation'', JString (ustr ''Layer 2 analysis not performed''))]),
        (ustr ''permission_analysis'',
           JObject
             [(ustr ''declared_purpose'', JString (ustr ''unknown'')),
              (ustr ''actual_capabilities'', JArray []),
              (ustr ''overprivileged'', JBool False),
              (ustr ''explanation'', JString (ustr ''Layer 2 analysis not performed''))]),
        (ustr ''data_access'',
           JObject
             [(ustr ''sensitive_data_accessed'', JArray []),
              (ustr ''data_sent_externally'', JBool False),
              (ustr ''external_endpoints'', JArray [])]),
        (ustr ''hidden_instructions'',
           JObject
             [(ustr ''detected'', JBool False),
              (ustr ''instructions'', JArray []),
              (ustr ''technique'', JString (ustr ''none''))]),
        (ustr ''behavioral_risk'',
           JObject
             [(ustr ''modifies_agent_config'', JBool False),
              (ustr ''creates_persistence'', JBool False),
              (ustr ''bypasses_confirmation'', JBool False),
              (ustr ''explanation'', JString (ustr ''Layer 2 analysis not performed''))]),
        (ustr ''overall_risk'', JString (ustr ''safe'')),
        (ustr ''summary'', JString (ustr ''Layer 2 semantic analysis was not performed.''))]"

fun bool_flags :: "json \<Rightarrow> bool list" where
  "bool_flags (JBool b) = [b]"
| "bool_flags (JArray vs) = concat (map bool_flags vs)"
| "bool_flags (JObject kvs) = concat (map (\<lambda>kv. bool_flags (snd kv)) kvs)"
| "bool_flags _ = []"

fun list_fields :: "json \<Rightarrow> json list list" where
  "list_fields (JArray vs) = vs # concat (map list_fields vs)"
| "list_fields (JObject kvs) = concat (map (\<lambda>kv. list_fields (snd kv)) kvs)"
| "list_fields _ = []"

definition dict_get :: "json \<Rightarrow> pystr \<Rightarrow> json option" where
  "dict_get d k = (case d of JObject kvs \<Rightarrow> map_of kvs k | _ \<Rightarrow> None)"

text \<open>
  Claim C9. Any two calls of \<open>get_default_result\<close> return the same object; in it
  \<^verbatim>\<open>overall_risk\<close> is \<^verbatim>\<open>safe\<close>, each of the seven boolean flags is false and
  each of the five list fields is empty.
\<close>

theorem get_default_result_constant:
  "get_default_result self = get_default_result self'
   \<and> dict_get (get_default_result self) (ustr ''overall_risk'') = Some (JString (ustr ''safe''))
   \<and> bool_flags (get_default_result self) = [False, False, False, False, False, False, False]
   \<and> list_fields (get_default_result self) = [[], [], [], [], []]"
  by (simp add: get_default_result_def dict_get_def ustr_def)

end
